theory Spec2Isabelle
  imports Main "HOL-Library.Sublist"
begin

section \<open>Python strings\<close>

text \<open>
  A Python \<open>str\<close> is modelled as an Isabelle \<open>string\<close>; a character is read as the
  code point of the same number, so the model covers the strings whose code points lie
  below 256. On this range \<open>str.lower\<close> moves \<open>A-Z\<close> and the upper-case letters
  \<open>0xC0-0xDE\<close> (without the multiplication sign \<open>0xD7\<close>) up by 32, and the
  characters \<open>str.strip\<close> removes are the twelve listed in \<open>py_isspace\<close>.
\<close>

definition py_isspace :: "char \<Rightarrow> bool" where
  "py_isspace c = (of_char c \<in> set [9, 10, 11, 12, 13, 28, 29, 30, 31, 32, 133, 160 :: nat])"

definition lower_char :: "char \<Rightarrow> char" where
  "lower_char c = (let n = (of_char c :: nat) in
     if (65 \<le> n \<and> n \<le> 90) \<or> (192 \<le> n \<and> n \<le> 222 \<and> n \<noteq> 215)
     then char_of (n + 32) else c)"

definition lower :: "string \<Rightarrow> string" where
  "lower s = map lower_char s"

definition strip :: "string \<Rightarrow> string" where
  "strip s = rev (dropWhile py_isspace (rev (dropWhile py_isspace s)))"

text \<open>\<open>s.split(sep)\<close> for a separator of one character: never the empty list.\<close>

fun py_split :: "char \<Rightarrow> string \<Rightarrow> string list" where
  "py_split sep [] = [[]]"
| "py_split sep (c # cs) =
     (if c = sep then [] # py_split sep cs
      else (case py_split sep cs of
              [] \<Rightarrow> [[c]]
            | p # ps \<Rightarrow> (c # p) # ps))"

section \<open>Regular expressions, as far as the format pattern needs them\<close>

datatype rexp =
    Zero
  | One
  | Atom "char \<Rightarrow> bool"
  | Alt rexp rexp
  | Times rexp rexp
  | Star rexp

definition conc :: "string set \<Rightarrow> string set \<Rightarrow> string set" where
  "conc K L = {u @ v | u v. u \<in> K \<and> v \<in> L}"

inductive_set star :: "string set \<Rightarrow> string set" for L :: "string set" where
  star_empty: "[] \<in> star L"
| star_more: "u \<in> L \<Longrightarrow> v \<in> star L \<Longrightarrow> u @ v \<in> star L"

fun lang :: "rexp \<Rightarrow> string set" where
  "lang Zero = {}"
| "lang One = {[]}"
| "lang (Atom p) = {[c] | c. p c}"
| "lang (Alt r s) = lang r \<union> lang s"
| "lang (Times r s) = conc (lang r) (lang s)"
| "lang (Star r) = star (lang r)"

fun nullable :: "rexp \<Rightarrow> bool" where
  "nullable Zero = False"
| "nullable One = True"
| "nullable (Atom p) = False"
| "nullable (Alt r s) = (nullable r \<or> nullable s)"
| "nullable (Times r s) = (nullable r \<and> nullable s)"
| "nullable (Star r) = True"

fun deriv :: "char \<Rightarrow> rexp \<Rightarrow> rexp" where
  "deriv c Zero = Zero"
| "deriv c One = Zero"
| "deriv c (Atom p) = (if p c then One else Zero)"
| "deriv c (Alt r s) = Alt (deriv c r) (deriv c s)"
| "deriv c (Times r s) =
     (if nullable r then Alt (Times (deriv c r) s) (deriv c s) else Times (deriv c r) s)"
| "deriv c (Star r) = Times (deriv c r) (Star r)"

text \<open>The matcher: \<open>matches r s\<close> holds when the whole of \<open>s\<close> is a word of \<open>r\<close>.\<close>

fun matches :: "rexp \<Rightarrow> string \<Rightarrow> bool" where
  "matches r [] = nullable r"
| "matches r (c # cs) = matches (deriv c r) cs"

text \<open>\<open>r+\<close> and \<open>r{2,}\<close>.\<close>

definition one_or_more :: "rexp \<Rightarrow> rexp" where
  "one_or_more r = Times r (Star r)"

definition two_or_more :: "rexp \<Rightarrow> rexp" where
  "two_or_more r = Times r (Times r (Star r))"

text \<open>
  \<open>re.match('^' + r + '$', s)\<close>: the pattern is anchored at the start, and \<open>$\<close> stands at
  the end of the string or just before a newline that ends it. A backtracking matcher
  finds a match exactly when there is one, so only the language of \<open>r\<close> matters.
\<close>

definition re_match_anchored :: "rexp \<Rightarrow> string \<Rightarrow> bool" where
  "re_match_anchored r s =
     (matches r s \<or> (s \<noteq> [] \<and> last s = CHR 0x0A \<and> matches r (butlast s)))"

section \<open>The format check\<close>

definition is_lower_az :: "char \<Rightarrow> bool" where
  "is_lower_az c = (97 \<le> (of_char c :: nat) \<and> (of_char c :: nat) \<le> 122)"

definition is_upper_az :: "char \<Rightarrow> bool" where
  "is_upper_az c = (65 \<le> (of_char c :: nat) \<and> (of_char c :: nat) \<le> 90)"

definition is_digit :: "char \<Rightarrow> bool" where
  "is_digit c = (48 \<le> (of_char c :: nat) \<and> (of_char c :: nat) \<le> 57)"

text \<open>The three character classes of the pattern:
  \<open>[a-zA-Z0-9._%+-]\<close>, \<open>[a-zA-Z0-9.-]\<close> and \<open>[a-zA-Z]\<close>.\<close>

definition local_class :: "char \<Rightarrow> bool" where
  "local_class c = (is_lower_az c \<or> is_upper_az c \<or> is_digit c \<or> c \<in> set ''._%+-'')"

definition domain_class :: "char \<Rightarrow> bool" where
  "domain_class c = (is_lower_az c \<or> is_upper_az c \<or> is_digit c \<or> c \<in> set ''.-'')"

definition alpha_class :: "char \<Rightarrow> bool" where
  "alpha_class c = (is_lower_az c \<or> is_upper_az c)"

text \<open>\<open>[a-zA-Z0-9._%+-]+@[a-zA-Z0-9.-]+\.[a-zA-Z]{2,}\<close>\<close>

definition email_pattern :: rexp where
  "email_pattern =
     Times (one_or_more (Atom local_class))
       (Times (Atom (\<lambda>c. c = CHR ''@''))
          (Times (one_or_more (Atom domain_class))
             (Times (Atom (\<lambda>c. c = CHR ''.''))
                (two_or_more (Atom alpha_class)))))"

definition validate_email_format :: "string \<Rightarrow> bool" where
  "validate_email_format email = re_match_anchored email_pattern (lower email)"

section \<open>Exceptions, the network and the log of requests\<close>

text \<open>
  Every exception below is a subclass of Python's \<open>Exception\<close>, so each \<open>except Exception\<close>
  of the source catches all of them.
\<close>

datatype exn =
    NXDOMAIN
  | NoAnswer
  | DnsTimeout
  | ConnectionRefused
  | SocketTimeout
  | SMTPServerDisconnected
  | IndexError
  | ZeroDivisionError
  | WorkerFault

datatype rdtype = RR_A | RR_MX

text \<open>What a verification sends to the network: DNS queries and the calls on the SMTP
  session (\<open>connect\<close>, \<open>helo\<close>, \<open>mail\<close>, \<open>rcpt\<close>, \<open>quit\<close> of \<open>smtplib.SMTP\<close>, each of
  which sends the command of its name). \<open>SmtpData\<close> is the command that would start a
  message body.\<close>

datatype event =
    DnsQuery string rdtype
  | SmtpConnect string nat
  | SmtpHelo string
  | SmtpMail string
  | SmtpRcpt string
  | SmtpData
  | SmtpQuit

text \<open>
  The network is fixed during a run: a request gets the same answer whenever it is made.
  An answer is a value or an exception; an SMTP answer is the reply code.
\<close>

record env =
  resolve :: "string \<Rightarrow> rdtype \<Rightarrow> exn + string list"
  smtp_connect :: "string \<Rightarrow> nat \<Rightarrow> exn + int"
  smtp_helo :: "string \<Rightarrow> string \<Rightarrow> exn + int"
  smtp_mail :: "string \<Rightarrow> string \<Rightarrow> exn + int"
  smtp_rcpt :: "string \<Rightarrow> string \<Rightarrow> exn + int"
  smtp_quit :: "string \<Rightarrow> exn + int"

text \<open>A computation returns a value or raises, and logs the requests it made.\<close>

type_synonym 'a io = "(exn + 'a) \<times> event list"

definition ret :: "'a \<Rightarrow> 'a io" where
  "ret x = (Inr x, [])"

definition raise :: "exn \<Rightarrow> 'a io" where
  "raise e = (Inl e, [])"

definition call :: "event \<Rightarrow> exn + 'a \<Rightarrow> 'a io" where
  "call ev answer = (answer, [ev])"

definition bind :: "'a io \<Rightarrow> ('a \<Rightarrow> 'b io) \<Rightarrow> 'b io" where
  "bind m f =
     (case m of
        (Inl e, t) \<Rightarrow> (Inl e, t)
      | (Inr x, t) \<Rightarrow> (case f x of (r, t') \<Rightarrow> (r, t @ t')))"

definition try_except :: "'a io \<Rightarrow> (exn \<Rightarrow> 'a io) \<Rightarrow> 'a io" where
  "try_except m handler =
     (case m of
        (Inl e, t) \<Rightarrow> (case handler e of (r, t') \<Rightarrow> (r, t @ t'))
      | (Inr x, t) \<Rightarrow> (Inr x, t))"

text \<open>\<open>xs[i]\<close>, which raises \<open>IndexError\<close> out of range.\<close>

definition index :: "'a list \<Rightarrow> nat \<Rightarrow> 'a io" where
  "index xs i = (if i < length xs then ret (xs ! i) else raise IndexError)"

section \<open>The verifier\<close>

text \<open>A company is a row of the CSV file: a dictionary from column names to strings.\<close>

type_synonym company = "string \<Rightarrow> string option"

record EmailVerifier =
  sending_domain :: string
  verified_count :: nat
  bad_count :: nat
  companies :: "company list"

definition disposable_domains :: "string list" where
  "disposable_domains =
     [''10minutemail.com'', ''guerrillamail.com'', ''mailinator.com'',
      ''tempmail.org'', ''throwaway.email'', ''example.com'', ''test.com'']"

definition trusted_turkish_domains :: "string list" where
  "trusted_turkish_domains =
     [''gmail.com'', ''hotmail.com'', ''yahoo.com'', ''outlook.com'',
      ''turk.net'', ''superonline.com'', ''mynet.com'', ''ttnet.net.tr'',
      ''com.tr'', ''net.tr'', ''org.tr'', ''info.tr'', ''biz.tr'']"

definition check_domain_mx_record :: "env \<Rightarrow> string \<Rightarrow> bool io" where
  "check_domain_mx_record env domain =
     try_except
       (bind (call (DnsQuery domain RR_MX) (resolve env domain RR_MX)) (\<lambda>mx_records.
        ret (length mx_records > 0)))
       (\<lambda>e. ret False)"

definition check_domain_exists :: "env \<Rightarrow> string \<Rightarrow> bool io" where
  "check_domain_exists env domain =
     try_except
       (bind (call (DnsQuery domain RR_A) (resolve env domain RR_A)) (\<lambda>a_records.
        ret (length a_records > 0)))
       (\<lambda>e. ret False)"

text \<open>
  \<open>email.split('@')[1]\<close> stands before the \<open>try\<close>, so its \<open>IndexError\<close> is the one
  exception that leaves the function; everything after it is caught and gives \<open>False\<close>.
\<close>

definition test_smtp_connection :: "EmailVerifier \<Rightarrow> env \<Rightarrow> string \<Rightarrow> bool io" where
  "test_smtp_connection self env email =
     bind (index (py_split CHR ''@'' email) 1) (\<lambda>domain.
     try_except
       (bind (call (DnsQuery domain RR_MX) (resolve env domain RR_MX)) (\<lambda>mx_records.
        bind (index mx_records 0) (\<lambda>mx_record.
        bind (call (SmtpConnect mx_record 25) (smtp_connect env mx_record 25)) (\<lambda>_.
        bind (call (SmtpHelo (sending_domain self))
                (smtp_helo env mx_record (sending_domain self))) (\<lambda>_.
        bind (call (SmtpMail (''test@'' @ sending_domain self))
                (smtp_mail env mx_record (''test@'' @ sending_domain self))) (\<lambda>code.
        if code \<noteq> 250 then
          bind (call SmtpQuit (smtp_quit env mx_record)) (\<lambda>_.
          ret False)
        else
          bind (call (SmtpRcpt email) (smtp_rcpt env mx_record email)) (\<lambda>code.
          bind (call SmtpQuit (smtp_quit env mx_record)) (\<lambda>_.
          ret (code \<in> set [250, 251])))))))))
       (\<lambda>e. ret False))"

text \<open>The first test of the reputation check,
  \<open>any(trusted in domain for trusted in self.trusted_turkish_domains)\<close>: \<open>in\<close> between two
  strings is Python's substring test.\<close>

definition is_trusted :: "string \<Rightarrow> bool" where
  "is_trusted domain = list_ex (\<lambda>trusted. sublist trusted domain) trusted_turkish_domains"

definition check_domain_reputation :: "env \<Rightarrow> string \<Rightarrow> bool io" where
  "check_domain_reputation env domain =
     try_except
       (if is_trusted domain then ret True
        else if domain \<in> set disposable_domains then ret False
        else check_domain_exists env domain)
       (\<lambda>e. ret False)"

definition verify_email_comprehensive :: "EmailVerifier \<Rightarrow> env \<Rightarrow> string \<Rightarrow> string io" where
  "verify_email_comprehensive self env email0 =
     (if email0 = [] \<or> CHR ''@'' \<notin> set email0 then ret ''BAD''
      else
        let email = strip (lower email0) in
        bind (index (py_split CHR ''@'' email) 1) (\<lambda>domain.
        if \<not> validate_email_format email then ret ''BAD''
        else bind (check_domain_exists env domain) (\<lambda>exists.
        if \<not> exists then ret ''BAD''
        else bind (check_domain_mx_record env domain) (\<lambda>has_mx.
        if \<not> has_mx then ret ''BAD''
        else bind (check_domain_reputation env domain) (\<lambda>reputable.
        if \<not> reputable then ret ''BAD''
        else
          try_except
            (bind (test_smtp_connection self env email) (\<lambda>accepted.
             if accepted then ret ''200'' else ret ''BAD''))
            (\<lambda>e. ret ''200''))))))"

primrec verify_email_batch :: "EmailVerifier \<Rightarrow> env \<Rightarrow> string list \<Rightarrow> string list io" where
  "verify_email_batch self env [] = ret []"
| "verify_email_batch self env (email # emails_batch) =
     bind (try_except (verify_email_comprehensive self env email) (\<lambda>e. ret ''BAD''))
       (\<lambda>result.
     bind (verify_email_batch self env emails_batch) (\<lambda>results.
     ret (result # results)))"

section \<open>The run over all companies\<close>

definition batch_size :: nat where
  "batch_size = 50"

text \<open>\<open>range(0, n, step)\<close> for a positive step, and
  \<open>[emails[i:i + batch_size] for i in range(0, len(emails), batch_size)]\<close>.\<close>

definition py_range_step :: "nat \<Rightarrow> nat \<Rightarrow> nat list" where
  "py_range_step n step = map (\<lambda>k. k * step) [0..<(n + step - 1) div step]"

definition make_batches :: "string list \<Rightarrow> string list list" where
  "make_batches emails =
     map (\<lambda>i. take batch_size (drop i emails)) (py_range_step (length emails) batch_size)"

text \<open>
  The thread pool is modelled by two parameters of the run. \<open>order\<close> lists the batch
  numbers in the order in which \<open>as_completed\<close> hands their futures over (each batch
  once). \<open>faults j\<close> is the exception with which the worker of batch \<open>j\<close> dies, if it
  does; \<open>future.result()\<close> then raises it, and otherwise returns what
  \<open>verify_email_batch\<close> returned.
\<close>

definition is_completion_order :: "nat \<Rightarrow> nat list \<Rightarrow> bool" where
  "is_completion_order n order = (sort order = [0..<n])"

definition future_result ::
  "EmailVerifier \<Rightarrow> env \<Rightarrow> (nat \<Rightarrow> exn option) \<Rightarrow> string list list \<Rightarrow> nat \<Rightarrow> exn + string list"
where
  "future_result self env faults batches j =
     (case faults j of
        Some e \<Rightarrow> Inl e
      | None \<Rightarrow> fst (verify_email_batch self env (batches ! j)))"

primrec collect_results ::
  "EmailVerifier \<Rightarrow> env \<Rightarrow> (nat \<Rightarrow> exn option) \<Rightarrow> string list list \<Rightarrow> nat list \<Rightarrow>
   string list \<Rightarrow> string list"
where
  "collect_results self env faults batches [] all_results = all_results"
| "collect_results self env faults batches (j # order) all_results =
     (case future_result self env faults batches j of
        Inr batch_results \<Rightarrow>
          collect_results self env faults batches order (all_results @ batch_results)
      | Inl e \<Rightarrow>
          collect_results self env faults batches order
            (all_results @ replicate (length (batches ! j)) ''BAD''))"

text \<open>\<open>company.get('email', '')\<close>.\<close>

definition get_email :: "company \<Rightarrow> string" where
  "get_email company = (case company ''email'' of None \<Rightarrow> [] | Some email \<Rightarrow> email)"

text \<open>The body of the loop \<open>for i, company in enumerate(self.companies)\<close>.\<close>

definition annotate :: "string list \<Rightarrow> nat \<times> company \<Rightarrow> company" where
  "annotate all_results ic =
     (snd ic)(''email_verification'' \<mapsto>
        (if fst ic < length all_results then all_results ! fst ic else ''BAD''))"

text \<open>
  The run returns the updated verifier and either the companies or the exception that
  leaves it: the success rate of the last log line is
  \<open>self.verified_count / len(all_results) * 100\<close>, computed after the companies and the
  counts have been written.
\<close>

definition verify_all_emails ::
  "EmailVerifier \<Rightarrow> env \<Rightarrow> (nat \<Rightarrow> exn option) \<Rightarrow> nat list \<Rightarrow>
   (exn + company list) \<times> EmailVerifier"
where
  "verify_all_emails self env faults order =
     (let emails = map get_email (companies self);
          batches = make_batches emails;
          all_results = collect_results self env faults batches order [];
          companies' = map (annotate all_results) (enumerate 0 (companies self));
          self' = self\<lparr> companies := companies',
                        verified_count := length (filter (\<lambda>result. result = ''200'') all_results),
                        bad_count := length (filter (\<lambda>result. result = ''BAD'') all_results) \<rparr>
      in if length all_results = 0 then (Inl ZeroDivisionError, self')
         else (Inr companies', self'))"

section \<open>Verifiers, networks and inputs used in the examples\<close>

text \<open>\<open>EmailVerifier(sending_domain)\<close>, and \<open>load_companies_from_csv\<close> once the rows are
  read.\<close>

definition new_verifier :: "string \<Rightarrow> EmailVerifier" where
  "new_verifier domain =
     \<lparr> sending_domain = domain, verified_count = 0, bad_count = 0, companies = [] \<rparr>"

definition load_companies :: "company list \<Rightarrow> EmailVerifier \<Rightarrow> EmailVerifier" where
  "load_companies rows self = self\<lparr> companies := rows \<rparr>"

text \<open>A network where every name resolves to one host and the mail server accepts
  everything.\<close>

definition net_accepting :: env where
  "net_accepting =
     \<lparr> resolve = (\<lambda>domain rd. Inr [''mx.example.net'']),
       smtp_connect = (\<lambda>host port. Inr 220),
       smtp_helo = (\<lambda>host name. Inr 250),
       smtp_mail = (\<lambda>host sender. Inr 250),
       smtp_rcpt = (\<lambda>host rcpt. Inr 250),
       smtp_quit = (\<lambda>host. Inr 221) \<rparr>"

text \<open>The same network with a mail server that refuses the connection, one that answers
  \<open>MAIL FROM\<close> with 550, one that answers \<open>RCPT TO\<close> with 550, one that answers it with 251, one that drops the
  connection at \<open>QUIT\<close>, and a network where no DNS
  query is answered.\<close>

definition net_refusing :: env where
  "net_refusing = net_accepting\<lparr> smtp_connect := (\<lambda>host port. Inl ConnectionRefused) \<rparr>"

definition net_mail_rejected :: env where
  "net_mail_rejected = net_accepting\<lparr> smtp_mail := (\<lambda>host sender. Inr 550) \<rparr>"

definition net_rcpt_rejected :: env where
  "net_rcpt_rejected = net_accepting\<lparr> smtp_rcpt := (\<lambda>host rcpt. Inr 550) \<rparr>"

definition net_rcpt_forwarded :: env where
  "net_rcpt_forwarded = net_accepting\<lparr> smtp_rcpt := (\<lambda>host rcpt. Inr 251) \<rparr>"

definition net_quit_dropped :: env where
  "net_quit_dropped = net_accepting\<lparr> smtp_quit := (\<lambda>host. Inl SMTPServerDisconnected) \<rparr>"



text \<open>The commands sent over the SMTP connection, in order.\<close>

fun is_smtp_command :: "event \<Rightarrow> bool" where
  "is_smtp_command (DnsQuery domain rd) = False"
| "is_smtp_command (SmtpConnect host port) = False"
| "is_smtp_command ev = True"

definition smtp_commands :: "event list \<Rightarrow> event list" where
  "smtp_commands log = filter is_smtp_command log"

text \<open>Companies: one without an address, one with a good address, one that was marked
  before; fifty-one companies of which only the last has a good address, and fifty-one
  of which only the fiftieth has one.\<close>

definition no_address :: company where
  "no_address = [''name'' \<mapsto> ''Emlak A'', ''email'' \<mapsto> []]"

definition good_address :: company where
  "good_address = [''name'' \<mapsto> ''Emlak B'', ''email'' \<mapsto> ''info@gmail.com'']"

definition already_marked :: company where
  "already_marked =
     [''name'' \<mapsto> ''Emlak C'', ''email'' \<mapsto> ''not-an-email'', ''email_verification'' \<mapsto> ''200'']"

definition companies_last_good :: "company list" where
  "companies_last_good = replicate 50 no_address @ [good_address]"

definition companies_fiftieth_good :: "company list" where
  "companies_fiftieth_good = replicate 49 no_address @ [good_address, no_address]"

definition verification_column :: "EmailVerifier \<Rightarrow> string option list" where
  "verification_column self = map (\<lambda>company. company ''email_verification'') (companies self)"

text \<open>No worker dies; the worker of the second batch dies.\<close>

definition no_faults :: "nat \<Rightarrow> exn option" where
  "no_faults j = None"

definition second_batch_fails :: "nat \<Rightarrow> exn option" where
  "second_batch_fails j = (if j = 1 then Some WorkerFault else None)"

section \<open>The matcher decides the language of the pattern\<close>

lemma conc_iff: "w \<in> conc K L \<longleftrightarrow> (\<exists>u v. w = u @ v \<and> u \<in> K \<and> v \<in> L)"
  by (auto simp: conc_def)

lemma Nil_in_conc: "[] \<in> conc K L \<longleftrightarrow> [] \<in> K \<and> [] \<in> L"
  by (auto simp: conc_iff)

lemma Cons_in_conc:
  "c # w \<in> conc K L \<longleftrightarrow>
     ([] \<in> K \<and> c # w \<in> L) \<or> (\<exists>u v. w = u @ v \<and> c # u \<in> K \<and> v \<in> L)"
proof
  assume "c # w \<in> conc K L"
  then obtain u v where uv: "c # w = u @ v" "u \<in> K" "v \<in> L"
    by (auto simp: conc_iff)
  show "([] \<in> K \<and> c # w \<in> L) \<or> (\<exists>u v. w = u @ v \<and> c # u \<in> K \<and> v \<in> L)"
  proof (cases u)
    case Nil
    with uv show ?thesis by simp
  next
    case (Cons a u')
    with uv show ?thesis by auto
  qed
next
  assume "([] \<in> K \<and> c # w \<in> L) \<or> (\<exists>u v. w = u @ v \<and> c # u \<in> K \<and> v \<in> L)"
  then show "c # w \<in> conc K L"
  proof
    assume "[] \<in> K \<and> c # w \<in> L"
    then have "[] @ (c # w) \<in> conc K L" unfolding conc_iff by blast
    then show ?thesis by simp
  next
    assume "\<exists>u v. w = u @ v \<and> c # u \<in> K \<and> v \<in> L"
    then obtain u v where "w = u @ v" "c # u \<in> K" "v \<in> L" by blast
    then have "(c # u) @ v \<in> conc K L" unfolding conc_iff by blast
    with \<open>w = u @ v\<close> show ?thesis by simp
  qed
qed

lemma star_Cons_split:
  "x \<in> star L \<Longrightarrow> x = c # w \<Longrightarrow> \<exists>u v. w = u @ v \<and> c # u \<in> L \<and> v \<in> star L"
proof (induction rule: star.induct)
  case star_empty
  then show ?case by simp
next
  case (star_more u v)
  show ?case
  proof (cases u)
    case Nil
    with star_more show ?thesis by simp
  next
    case (Cons a u')
    with star_more show ?thesis by auto
  qed
qed

lemma Cons_in_star:
  "c # w \<in> star L \<longleftrightarrow> (\<exists>u v. w = u @ v \<and> c # u \<in> L \<and> v \<in> star L)"
proof
  assume "c # w \<in> star L"
  then show "\<exists>u v. w = u @ v \<and> c # u \<in> L \<and> v \<in> star L"
    by (rule star_Cons_split) simp
next
  assume "\<exists>u v. w = u @ v \<and> c # u \<in> L \<and> v \<in> star L"
  then obtain u v where "w = u @ v" "c # u \<in> L" "v \<in> star L" by blast
  then have "(c # u) @ v \<in> star L" by (intro star_more)
  with \<open>w = u @ v\<close> show "c # w \<in> star L" by simp
qed

lemma nullable_iff: "nullable r \<longleftrightarrow> [] \<in> lang r"
  by (induction r) (auto simp: Nil_in_conc intro: star_empty)

lemma lang_deriv: "w \<in> lang (deriv c r) \<longleftrightarrow> c # w \<in> lang r"
proof (induction r arbitrary: w)
  case (Times r s)
  have whole: "c # w \<in> lang (Times r s) \<longleftrightarrow>
      ([] \<in> lang r \<and> c # w \<in> lang s) \<or> (\<exists>u v. w = u @ v \<and> c # u \<in> lang r \<and> v \<in> lang s)"
    by (simp add: Cons_in_conc)
  have part: "w \<in> conc (lang (deriv c r)) (lang s) \<longleftrightarrow>
      (\<exists>u v. w = u @ v \<and> c # u \<in> lang r \<and> v \<in> lang s)"
    by (simp add: conc_iff Times.IH)
  show ?case
    unfolding whole using part by (auto simp: nullable_iff Times.IH)
next
  case (Star r)
  have "w \<in> conc (lang (deriv c r)) (star (lang r)) \<longleftrightarrow>
      (\<exists>u v. w = u @ v \<and> c # u \<in> lang r \<and> v \<in> star (lang r))"
    by (simp add: conc_iff Star.IH)
  then show ?case
    by (simp add: Cons_in_star)
qed auto

lemma matches_iff: "matches r s \<longleftrightarrow> s \<in> lang r"
  by (induction s arbitrary: r) (simp_all add: nullable_iff lang_deriv)

lemma star_Atom: "w \<in> star {[c] | c. p c} \<longleftrightarrow> list_all p w"
proof
  assume "w \<in> star {[c] | c. p c}"
  then show "list_all p w"
    by (induction rule: star.induct) auto
next
  assume "list_all p w"
  then show "w \<in> star {[c] | c. p c}"
  proof (induction w)
    case Nil
    show ?case by (rule star_empty)
  next
    case (Cons a w)
    then have "[a] \<in> {[c] | c. p c}" "w \<in> star {[c] | c. p c}" by simp_all
    then have "[a] @ w \<in> star {[c] | c. p c}" by (rule star_more)
    then show ?case by simp
  qed
qed

lemma conc_Atom: "w \<in> conc {[c] | c. p c} L \<longleftrightarrow> (\<exists>c v. w = c # v \<and> p c \<and> v \<in> L)"
proof
  assume "w \<in> conc {[c] | c. p c} L"
  then show "\<exists>c v. w = c # v \<and> p c \<and> v \<in> L"
    by (auto simp: conc_iff)
next
  assume "\<exists>c v. w = c # v \<and> p c \<and> v \<in> L"
  then obtain c v where "w = c # v" "p c" "v \<in> L" by blast
  then have "w = [c] @ v \<and> [c] \<in> {[c] | c. p c} \<and> v \<in> L" by simp
  then show "w \<in> conc {[c] | c. p c} L"
    unfolding conc_iff by blast
qed

lemma lang_one_or_more: "w \<in> lang (one_or_more (Atom p)) \<longleftrightarrow> w \<noteq> [] \<and> list_all p w"
  by (cases w) (auto simp: one_or_more_def conc_Atom star_Atom)

lemma lang_two_or_more: "w \<in> lang (two_or_more (Atom p)) \<longleftrightarrow> 2 \<le> length w \<and> list_all p w"
proof (cases w)
  case Nil
  then show ?thesis by (auto simp: two_or_more_def conc_Atom)
next
  case (Cons a w')
  then show ?thesis
    by (cases w') (auto simp: two_or_more_def conc_Atom star_Atom)
qed

lemma lang_email_pattern:
  "s \<in> lang email_pattern \<longleftrightarrow>
     (\<exists>l d t. s = l @ CHR ''@'' # d @ CHR ''.'' # t \<and>
        l \<noteq> [] \<and> list_all local_class l \<and>
        d \<noteq> [] \<and> list_all domain_class d \<and>
        2 \<le> length t \<and> list_all alpha_class t)"
proof -
  have "s \<in> lang email_pattern \<longleftrightarrow>
      (\<exists>l r1. s = l @ r1 \<and> l \<in> lang (one_or_more (Atom local_class)) \<and>
        (\<exists>r2. r1 = CHR ''@'' # r2 \<and>
          (\<exists>d r3. r2 = d @ r3 \<and> d \<in> lang (one_or_more (Atom domain_class)) \<and>
            (\<exists>t. r3 = CHR ''.'' # t \<and> t \<in> lang (two_or_more (Atom alpha_class))))))"
    unfolding email_pattern_def lang.simps(5) lang.simps(3) conc_Atom
    unfolding conc_iff by simp
  also have "\<dots> \<longleftrightarrow> (\<exists>l d t. s = l @ CHR ''@'' # d @ CHR ''.'' # t \<and>
        l \<in> lang (one_or_more (Atom local_class)) \<and>
        d \<in> lang (one_or_more (Atom domain_class)) \<and>
        t \<in> lang (two_or_more (Atom alpha_class)))"
    by blast
  finally show ?thesis
    unfolding lang_one_or_more lang_two_or_more by simp
qed

section \<open>Lower-casing, the character classes and the format check\<close>

lemma lower_char_eq_at [simp]: "lower_char c = CHR ''@'' \<longleftrightarrow> c = CHR ''@''"
  by (auto simp: lower_char_def Let_def dest: arg_cong[where f = "of_char :: char \<Rightarrow> nat"])

lemma lower_char_eq_dot [simp]: "lower_char c = CHR ''.'' \<longleftrightarrow> c = CHR ''.''"
  by (auto simp: lower_char_def Let_def dest: arg_cong[where f = "of_char :: char \<Rightarrow> nat"])

lemma lower_char_idem [simp]: "lower_char (lower_char c) = lower_char c"
  by (auto simp: lower_char_def Let_def)

lemma py_isspace_lower_char [simp]: "py_isspace (lower_char c) = py_isspace c"
  by (auto simp: py_isspace_def lower_char_def Let_def)

lemma not_space_at [simp]: "\<not> py_isspace CHR ''@''"
  by (simp add: py_isspace_def)

lemma class_at [simp]:
  "\<not> local_class CHR ''@''" "\<not> domain_class CHR ''@''" "\<not> alpha_class CHR ''@''"
  by (simp_all add: local_class_def domain_class_def alpha_class_def
      is_lower_az_def is_upper_az_def is_digit_def)

lemma alpha_not_dot [simp]: "\<not> alpha_class CHR ''.''"
  by (simp add: alpha_class_def is_lower_az_def is_upper_az_def)

lemma class_newline [simp]: "\<not> alpha_class CHR 0x0A"
  by (simp add: alpha_class_def is_lower_az_def is_upper_az_def)

lemma lower_char_upper: "is_upper_az c \<Longrightarrow> is_lower_az (lower_char c)"
  by (auto simp: lower_char_def Let_def is_upper_az_def is_lower_az_def)

lemma lower_char_other: "\<not> is_upper_az c \<Longrightarrow> (of_char c :: nat) < 192 \<Longrightarrow> lower_char c = c"
  by (auto simp: lower_char_def Let_def is_upper_az_def)

lemma lower_char_lower: "is_lower_az c \<Longrightarrow> lower_char c = c"
  by (auto simp: lower_char_def is_lower_az_def)

lemma lower_char_digit: "is_digit c \<Longrightarrow> lower_char c = c"
  by (auto simp: lower_char_def is_digit_def)

lemma lower_char_punct: "c \<in> set ''._%+-'' \<Longrightarrow> lower_char c = c"
  by (auto simp: lower_char_def)

lemma local_class_lower: "local_class c \<Longrightarrow> local_class (lower_char c)"
  unfolding local_class_def
  using lower_char_upper lower_char_lower lower_char_digit lower_char_punct by metis

lemma domain_class_lower: "domain_class c \<Longrightarrow> domain_class (lower_char c)"
proof -
  have "c \<in> set ''.-'' \<Longrightarrow> lower_char c = c" by (auto simp: lower_char_def)
  then show "domain_class c \<Longrightarrow> domain_class (lower_char c)"
    unfolding domain_class_def
    using lower_char_upper lower_char_lower lower_char_digit by metis
qed

lemma alpha_class_lower: "alpha_class c \<Longrightarrow> alpha_class (lower_char c)"
  unfolding alpha_class_def
  using lower_char_upper lower_char_lower by metis

lemma count_list_lower_at [simp]: "count_list (lower s) CHR ''@'' = count_list s CHR ''@''"
  by (induction s) (simp_all add: lower_def)

lemma count_list_none: "list_all p w \<Longrightarrow> \<not> p x \<Longrightarrow> count_list w x = 0"
  by (induction w) auto

lemma count_list_append [simp]: "count_list (u @ v) x = count_list u x + count_list v x"
  by (induction u) auto

lemma email_pattern_one_at:
  assumes "s \<in> lang email_pattern"
  shows "count_list s CHR ''@'' = 1"
proof -
  from assms obtain l d t where s: "s = l @ CHR ''@'' # d @ CHR ''.'' # t"
    and cls: "list_all local_class l" "list_all domain_class d" "list_all alpha_class t"
    unfolding lang_email_pattern by blast
  from cls have "count_list l CHR ''@'' = 0" "count_list d CHR ''@'' = 0" "count_list t CHR ''@'' = 0"
    by (simp_all add: count_list_none)
  with s show ?thesis by simp
qed

lemma split_unique:
  "x \<notin> set l \<Longrightarrow> x \<notin> set l' \<Longrightarrow> l @ x # r = l' @ x # r' \<Longrightarrow> l = l' \<and> r = r'"
proof (induction l arbitrary: l')
  case Nil
  then show ?case by (cases l') auto
next
  case (Cons a l)
  then show ?case by (cases l') auto
qed

lemma count_list_0_iff: "count_list w x = 0 \<longleftrightarrow> x \<notin> set w"
  by (induction w) auto

lemma email_pattern_dot_after_at:
  assumes "s \<in> lang email_pattern" and "s = l @ CHR ''@'' # d"
  shows "CHR ''.'' \<in> set d"
proof -
  from assms(1) obtain l' d' t where s: "s = l' @ CHR ''@'' # d' @ CHR ''.'' # t"
    and cls: "list_all local_class l'"
    unfolding lang_email_pattern by blast
  from cls have l': "CHR ''@'' \<notin> set l'"
    using count_list_none[of local_class l' "CHR ''@''"] by (simp add: count_list_0_iff)
  have "count_list s CHR ''@'' = 1"
    using assms(1) by (rule email_pattern_one_at)
  with assms(2) have "count_list l CHR ''@'' + 1 + count_list d CHR ''@'' = 1"
    by simp
  then have "count_list l CHR ''@'' = 0"
    by arith
  then have l: "CHR ''@'' \<notin> set l"
    by (simp add: count_list_0_iff)
  from s assms(2) have eq: "l @ CHR ''@'' # d = l' @ CHR ''@'' # (d' @ CHR ''.'' # t)"
    by simp
  have "d = d' @ CHR ''.'' # t"
    using split_unique[OF l l' eq] by (rule conjunct2)
  then show ?thesis by simp
qed

lemma count_list_butlast:
  "s \<noteq> [] \<Longrightarrow> last s \<noteq> x \<Longrightarrow> count_list (butlast s) x = count_list s x"
proof -
  assume a: "s \<noteq> []" "last s \<noteq> x"
  then have "count_list s x = count_list (butlast s @ [last s]) x" by simp
  also have "\<dots> = count_list (butlast s) x"
    using a by (simp del: append_butlast_last_id)
  finally show ?thesis by simp
qed

lemma validate_one_at:
  assumes "validate_email_format email"
  shows "count_list email CHR ''@'' = 1"
proof -
  let ?s = "lower email"
  from assms consider "?s \<in> lang email_pattern"
    | "?s \<noteq> []" "last ?s = CHR 0x0A" "butlast ?s \<in> lang email_pattern"
    unfolding validate_email_format_def re_match_anchored_def matches_iff by blast
  then have "count_list ?s CHR ''@'' = 1"
  proof cases
    case 1
    then show ?thesis by (rule email_pattern_one_at)
  next
    case 2
    then have "count_list (butlast ?s) CHR ''@'' = 1" by (simp add: email_pattern_one_at)
    with 2 show ?thesis by (simp add: count_list_butlast)
  qed
  then show ?thesis by simp
qed

lemma validate_dot_in_domain:
  assumes "validate_email_format email" and "email = l @ CHR ''@'' # d"
  shows "CHR ''.'' \<in> set d"
proof -
  let ?s = "lower email"
  have s: "?s = lower l @ CHR ''@'' # lower d"
    using assms(2) by (simp add: lower_def lower_char_def)
  from assms(1) consider "?s \<in> lang email_pattern"
    | "?s \<noteq> []" "last ?s = CHR 0x0A" "butlast ?s \<in> lang email_pattern"
    unfolding validate_email_format_def re_match_anchored_def matches_iff by blast
  then have "CHR ''.'' \<in> set (lower d)"
  proof cases
    case 1
    then show ?thesis using s by (rule email_pattern_dot_after_at)
  next
    case 2
    from 2(2) s have "d \<noteq> []" by (auto simp: lower_def)
    then have "butlast ?s = lower l @ CHR ''@'' # butlast (lower d)"
      using s by (simp add: butlast_append lower_def)
    with 2(3) have "CHR ''.'' \<in> set (butlast (lower d))"
      by (rule email_pattern_dot_after_at)
    then show ?thesis by (rule in_set_butlastD)
  qed
  then have "CHR ''.'' \<in> lower_char ` set d"
    by (simp add: lower_def)
  then obtain x where x: "x \<in> set d" "CHR ''.'' = lower_char x"
    by blast
  from x(2) have "lower_char x = CHR ''.''" by (rule sym)
  with x(1) show ?thesis by simp
qed

lemma validate_well_formed:
  assumes "user \<noteq> []" "list_all local_class user"
    and "sub \<noteq> []" "list_all domain_class sub"
    and "dmn \<noteq> [] " "list_all domain_class dmn"
    and "2 \<le> length tld" "list_all alpha_class tld"
  shows "validate_email_format (user @ ''@'' @ sub @ ''.'' @ dmn @ ''.'' @ tld)"
proof -
  let ?d = "lower sub @ CHR ''.'' # lower dmn"
  have dot: "domain_class CHR ''.''" by (simp add: domain_class_def)
  have "lower (user @ ''@'' @ sub @ ''.'' @ dmn @ ''.'' @ tld) =
      lower user @ CHR ''@'' # ?d @ CHR ''.'' # lower tld"
    by (simp add: lower_def lower_char_def)
  moreover have "lower user \<noteq> []" "list_all local_class (lower user)"
    using assms(1,2) by (auto simp: lower_def list_all_iff local_class_lower)
  moreover have "?d \<noteq> []" "list_all domain_class ?d"
    using assms(3-6) dot by (auto simp: lower_def list_all_iff domain_class_lower)
  moreover have "2 \<le> length (lower tld)" "list_all alpha_class (lower tld)"
    using assms(7,8) by (auto simp: lower_def list_all_iff alpha_class_lower)
  ultimately have "lower (user @ ''@'' @ sub @ ''.'' @ dmn @ ''.'' @ tld) \<in> lang email_pattern"
    unfolding lang_email_pattern by blast
  then show ?thesis
    by (simp add: validate_email_format_def re_match_anchored_def matches_iff)
qed

section \<open>Splitting the address and running computations\<close>

lemma length_py_split: "length (py_split sep s) = Suc (count_list s sep)"
proof (induction s)
  case Nil
  show ?case by simp
next
  case (Cons c s)
  then show ?case
    by (cases "py_split sep s") auto
qed

lemma index_1_split:
  "sep \<in> set s \<Longrightarrow> index (py_split sep s) 1 = (Inr (py_split sep s ! 1), [])"
proof -
  assume "sep \<in> set s"
  then have "count_list s sep \<noteq> 0" by (simp add: count_list_0_iff)
  then have "1 < length (py_split sep s)" by (simp add: length_py_split)
  then show ?thesis by (simp add: index_def ret_def)
qed


lemma bind_value: "bind (Inr x, []) f = f x"
  by (simp add: bind_def split: prod.splits)

lemma try_except_returns: "\<exists>x. fst (try_except m (\<lambda>e. ret v)) = Inr x"
proof (cases m)
  case (Pair r log)
  then show ?thesis
    by (cases r) (simp_all add: try_except_def ret_def)
qed

section \<open>Normalising the address\<close>

lemma lower_idem: "lower (lower s) = lower s"
  by (simp add: lower_def)

lemma isspace_after_lower: "py_isspace \<circ> lower_char = py_isspace"
  by (rule ext) simp

lemma strip_lower: "strip (lower s) = lower (strip s)"
  by (simp add: strip_def lower_def dropWhile_map rev_map isspace_after_lower)

lemma dropWhile_keeps: "\<not> P x \<Longrightarrow> x \<in> set (dropWhile P xs) \<longleftrightarrow> x \<in> set xs"
  by (induction xs) auto

lemma at_in_strip: "CHR ''@'' \<in> set (strip s) \<longleftrightarrow> CHR ''@'' \<in> set s"
  by (simp add: strip_def dropWhile_keeps)

lemma at_eq_lower_char: "CHR ''@'' = lower_char c \<longleftrightarrow> c = CHR ''@''"
  using lower_char_eq_at[of c] by (simp only: eq_commute[of "CHR ''@''" "lower_char c"])

lemma at_in_lower: "CHR ''@'' \<in> set (lower s) \<longleftrightarrow> CHR ''@'' \<in> set s"
  by (induction s) (simp_all add: lower_def at_eq_lower_char eq_commute[of "CHR ''@''"])

lemma dropWhile_rev_dropWhile:
  "dropWhile P (rev (dropWhile P (rev (dropWhile P xs)))) = rev (dropWhile P (rev (dropWhile P xs)))"
proof (cases "dropWhile P (rev (dropWhile P xs))")
  case Nil
  show ?thesis unfolding Nil by simp
next
  case (Cons b bs)
  let ?a = "dropWhile P xs"
  have ne: "?a \<noteq> []"
  proof
    assume "?a = []"
    then have "dropWhile P (rev ?a) = []" by (simp only: rev.simps dropWhile.simps)
    with Cons show False by simp
  qed
  then have "\<not> P (hd ?a)" by (rule hd_dropWhile)
  obtain us where us: "rev ?a = us @ b # bs"
    using Cons by (metis takeWhile_dropWhile_id)
  then have a: "?a = rev bs @ b # rev us"
    by (metis rev_rev_ident rev_append rev.simps(2) append_assoc append_Cons append_Nil)
  have "hd (rev (b # bs)) = hd ?a"
    unfolding a by (cases "rev bs") auto
  with \<open>\<not> P (hd ?a)\<close> have "\<not> P (hd (rev (b # bs)))" by simp
  moreover have "rev (b # bs) \<noteq> []" by simp
  ultimately have "dropWhile P (rev (b # bs)) = rev (b # bs)"
    by (simp only: dropWhile_eq_self_iff) simp
  with Cons show ?thesis by simp
qed

lemma strip_idem: "strip (strip s) = strip s"
  by (simp add: strip_def dropWhile_rev_dropWhile)

lemma normalise_twice: "strip (lower (lower (strip s))) = strip (lower s)"
  by (simp add: lower_idem strip_lower strip_idem)

text \<open>
  Claim C10: for every address and every fixed network, verifying the address gives the
  same result as verifying the address stripped of surrounding whitespace and
  lower-cased. The two runs agree on the verdict and on the log of requests.
\<close>

theorem C10_verdict_of_normalised_address:
  "verify_email_comprehensive self env (lower (strip email)) =
   verify_email_comprehensive self env email"
proof (cases "CHR ''@'' \<in> set email")
  case True
  then have "CHR ''@'' \<in> set (lower (strip email))"
    by (simp add: at_in_lower at_in_strip)
  moreover from this have "lower (strip email) \<noteq> []" by auto
  moreover from True have "email \<noteq> []" by auto
  ultimately show ?thesis
    using True by (simp add: verify_email_comprehensive_def normalise_twice)
next
  case False
  then have "CHR ''@'' \<notin> set (lower (strip email))"
    by (simp add: at_in_lower at_in_strip)
  with False show ?thesis
    by (simp add: verify_email_comprehensive_def)
qed

section \<open>The format check in the pipeline\<close>

lemma verify_format_rejected:
  assumes "\<not> validate_email_format (strip (lower email))"
  shows "verify_email_comprehensive self env email = (Inr ''BAD'', [])"
proof (cases "CHR ''@'' \<in> set email")
  case True
  then have at: "CHR ''@'' \<in> set (strip (lower email))"
    by (simp add: at_in_lower at_in_strip)
  from True have "email \<noteq> []" by auto
  with True assms show ?thesis
    unfolding verify_email_comprehensive_def Let_def index_1_split[OF at] bind_value
    by (simp add: ret_def)
next
  case False
  then show ?thesis
    by (simp add: verify_email_comprehensive_def ret_def)
qed

text \<open>
  Claim C8: the format check rejects every address that does not hold exactly one \<open>@\<close>,
  and every address whose part after an \<open>@\<close> holds no dot; it accepts an address
  \<open>user@sub.domain.tld\<close> whose local part, labels and top-level name are non-empty words
  over the classes of the pattern (the top-level name of two letters at least); and when
  the format check of the pipeline, made on the stripped lower-cased address, rejects,
  the verdict is \<open>"BAD"\<close> and the log of DNS and SMTP requests is empty.
\<close>

theorem C8_format_check:
  "(count_list email CHR ''@'' \<noteq> 1 \<longrightarrow> \<not> validate_email_format email) \<and>
   (email = l @ CHR ''@'' # d \<and> CHR ''.'' \<notin> set d \<longrightarrow> \<not> validate_email_format email) \<and>
   (user \<noteq> [] \<and> list_all local_class user \<and>
    sub \<noteq> [] \<and> list_all domain_class sub \<and>
    dmn \<noteq> [] \<and> list_all domain_class dmn \<and>
    2 \<le> length tld \<and> list_all alpha_class tld \<longrightarrow>
      validate_email_format (user @ ''@'' @ sub @ ''.'' @ dmn @ ''.'' @ tld)) \<and>
   (\<not> validate_email_format (strip (lower email)) \<longrightarrow>
      verify_email_comprehensive self env email = (Inr ''BAD'', []))"
proof (intro conjI impI)
  assume "count_list email CHR ''@'' \<noteq> 1"
  then show "\<not> validate_email_format email"
    using validate_one_at by blast
next
  assume "email = l @ CHR ''@'' # d \<and> CHR ''.'' \<notin> set d"
  then show "\<not> validate_email_format email"
    using validate_dot_in_domain by blast
next
  assume "user \<noteq> [] \<and> list_all local_class user \<and>
    sub \<noteq> [] \<and> list_all domain_class sub \<and>
    dmn \<noteq> [] \<and> list_all domain_class dmn \<and>
    2 \<le> length tld \<and> list_all alpha_class tld"
  then show "validate_email_format (user @ ''@'' @ sub @ ''.'' @ dmn @ ''.'' @ tld)"
    by (intro validate_well_formed) simp_all
next
  assume "\<not> validate_email_format (strip (lower email))"
  then show "verify_email_comprehensive self env email = (Inr ''BAD'', [])"
    by (rule verify_format_rejected)
qed

theorem C8_format_check_witness:
  "count_list ''a@b@c.com'' CHR ''@'' \<noteq> 1 \<and> \<not> validate_email_format ''a@b@c.com'' \<and>
   CHR ''.'' \<notin> set ''localhost'' \<and> \<not> validate_email_format ''user@localhost'' \<and>
   list_all local_class ''user'' \<and> list_all domain_class ''sub'' \<and>
   list_all domain_class ''domain'' \<and> list_all alpha_class ''tld'' \<and>
   validate_email_format ''user@sub.domain.tld'' \<and>
   \<not> validate_email_format (strip (lower ''not-an-email'')) \<and>
   verify_email_comprehensive (new_verifier ''gatesweb.top'') net_accepting ''not-an-email'' =
     (Inr ''BAD'', [])"
proof -
  have h1: "count_list ''a@b@c.com'' CHR ''@'' \<noteq> 1" by code_simp
  have h2: "CHR ''.'' \<notin> set ''localhost''" by code_simp
  have h3: "list_all local_class ''user''" "list_all domain_class ''sub''"
    "list_all domain_class ''domain''" "list_all alpha_class ''tld''" by code_simp+
  have h3c: "''user'' \<noteq> [] \<and> list_all local_class ''user'' \<and>
      ''sub'' \<noteq> [] \<and> list_all domain_class ''sub'' \<and>
      ''domain'' \<noteq> [] \<and> list_all domain_class ''domain'' \<and>
      2 \<le> length ''tld'' \<and> list_all alpha_class ''tld''" by code_simp
  have h4: "\<not> validate_email_format (strip (lower ''not-an-email''))" by code_simp
  have r1: "\<not> validate_email_format ''a@b@c.com''"
    by (rule C8_format_check[THEN conjunct1, THEN mp, OF h1])
  have "\<not> validate_email_format (''user'' @ CHR ''@'' # ''localhost'')"
    by (rule C8_format_check[THEN conjunct2, THEN conjunct1, THEN mp, OF conjI, OF refl h2])
  then have r2: "\<not> validate_email_format ''user@localhost''" by simp
  have "validate_email_format (''user'' @ ''@'' @ ''sub'' @ ''.'' @ ''domain'' @ ''.'' @ ''tld'')"
    by (rule C8_format_check[THEN conjunct2, THEN conjunct2, THEN conjunct1, THEN mp, OF h3c])
  then have r3: "validate_email_format ''user@sub.domain.tld''" by simp
  have r4: "verify_email_comprehensive (new_verifier ''gatesweb.top'') net_accepting ''not-an-email'' =
     (Inr ''BAD'', [])"
    by (rule C8_format_check[THEN conjunct2, THEN conjunct2, THEN conjunct2, THEN mp, OF h4])
  show ?thesis
    by (intro conjI h1 h2 h3 h4 r1 r2 r3 r4)
qed

section \<open>The SMTP probe\<close>

text \<open>
  Once the address holds an \<open>@\<close>, the probe returns a truth value whatever the network
  does: every exception raised after the split is caught inside the probe, so the
  \<open>except\<close> branch of the pipeline that answers \<open>"200"\<close> is never entered.
\<close>

lemma test_smtp_connection_returns:
  assumes "CHR ''@'' \<in> set email"
  shows "\<exists>accepted. fst (test_smtp_connection self env email) = Inr accepted"
  unfolding test_smtp_connection_def index_1_split[OF assms] bind_value
  by (rule try_except_returns)

lemma probe_after_split:
  assumes "CHR ''@'' \<in> set email"
  shows "test_smtp_connection self env email =
     try_except
       (bind (call (DnsQuery (py_split CHR ''@'' email ! 1) RR_MX)
                (resolve env (py_split CHR ''@'' email ! 1) RR_MX)) (\<lambda>mx_records.
        bind (index mx_records 0) (\<lambda>mx_record.
        bind (call (SmtpConnect mx_record 25) (smtp_connect env mx_record 25)) (\<lambda>_.
        bind (call (SmtpHelo (sending_domain self))
                (smtp_helo env mx_record (sending_domain self))) (\<lambda>_.
        bind (call (SmtpMail (''test@'' @ sending_domain self))
                (smtp_mail env mx_record (''test@'' @ sending_domain self))) (\<lambda>code.
        if code \<noteq> 250 then
          bind (call SmtpQuit (smtp_quit env mx_record)) (\<lambda>_.
          ret False)
        else
          bind (call (SmtpRcpt email) (smtp_rcpt env mx_record email)) (\<lambda>code.
          bind (call SmtpQuit (smtp_quit env mx_record)) (\<lambda>_.
          ret (code \<in> set [250, 251])))))))))
       (\<lambda>e. ret False)"
  unfolding test_smtp_connection_def index_1_split[OF assms] bind_value ..


text \<open>
  Claim C4, amended: the commands the probe sends over the connection are always an
  initial part of \<open>HELO, MAIL FROM, RCPT TO, QUIT\<close> or of \<open>HELO, MAIL FROM, QUIT\<close>, so
  \<open>DATA\<close> is never sent and \<open>RCPT TO\<close> only follows \<open>MAIL FROM\<close>; and \<open>QUIT\<close> is sent:
  when \<open>MAIL FROM\<close> is answered with a code other than 250 the commands are exactly
  \<open>HELO, MAIL FROM, QUIT\<close>, and when it is answered with 250 and \<open>RCPT TO\<close> is answered
  they are exactly \<open>HELO, MAIL FROM, RCPT TO, QUIT\<close>.
\<close>

theorem C4_probe_commands:
  "(prefix (smtp_commands (snd (test_smtp_connection self env email)))
      [SmtpHelo (sending_domain self), SmtpMail (''test@'' @ sending_domain self),
       SmtpRcpt email, SmtpQuit] \<or>
    prefix (smtp_commands (snd (test_smtp_connection self env email)))
      [SmtpHelo (sending_domain self), SmtpMail (''test@'' @ sending_domain self),
       SmtpQuit]) \<and>
   (CHR ''@'' \<in> set email \<and>
    resolve env (py_split CHR ''@'' email ! 1) RR_MX = Inr (mx_record # others) \<and>
    smtp_connect env mx_record 25 = Inr connect_code \<and>
    smtp_helo env mx_record (sending_domain self) = Inr helo_code \<and>
    smtp_mail env mx_record (''test@'' @ sending_domain self) = Inr mail_code \<longrightarrow>
      (mail_code \<noteq> 250 \<longrightarrow>
         smtp_commands (snd (test_smtp_connection self env email)) =
           [SmtpHelo (sending_domain self), SmtpMail (''test@'' @ sending_domain self),
            SmtpQuit]) \<and>
      (mail_code = 250 \<and> smtp_rcpt env mx_record email = Inr rcpt_code \<longrightarrow>
         smtp_commands (snd (test_smtp_connection self env email)) =
           [SmtpHelo (sending_domain self), SmtpMail (''test@'' @ sending_domain self),
            SmtpRcpt email, SmtpQuit]))"
proof (intro conjI impI)
  show "prefix (smtp_commands (snd (test_smtp_connection self env email)))
      [SmtpHelo (sending_domain self), SmtpMail (''test@'' @ sending_domain self),
       SmtpRcpt email, SmtpQuit] \<or>
    prefix (smtp_commands (snd (test_smtp_connection self env email)))
      [SmtpHelo (sending_domain self), SmtpMail (''test@'' @ sending_domain self),
       SmtpQuit]"
  proof (cases "CHR ''@'' \<in> set email")
    case True
    show ?thesis
      unfolding probe_after_split[OF True]
      by (simp add: smtp_commands_def bind_def try_except_def call_def ret_def raise_def
          index_def split: sum.splits)
  next
    case False
    then have "count_list email CHR ''@'' = 0" by (simp add: count_list_0_iff)
    then have "index (py_split CHR ''@'' email) 1 = (Inl IndexError, [])"
      by (simp add: index_def raise_def length_py_split)
    then show ?thesis
      by (simp add: test_smtp_connection_def bind_def smtp_commands_def)
  qed
next
  assume a: "CHR ''@'' \<in> set email \<and>
    resolve env (py_split CHR ''@'' email ! 1) RR_MX = Inr (mx_record # others) \<and>
    smtp_connect env mx_record 25 = Inr connect_code \<and>
    smtp_helo env mx_record (sending_domain self) = Inr helo_code \<and>
    smtp_mail env mx_record (''test@'' @ sending_domain self) = Inr mail_code"
  then have at: "CHR ''@'' \<in> set email" by simp
  {
    assume "mail_code \<noteq> 250"
    with a show "smtp_commands (snd (test_smtp_connection self env email)) =
           [SmtpHelo (sending_domain self), SmtpMail (''test@'' @ sending_domain self),
            SmtpQuit]"
      unfolding probe_after_split[OF at]
      by (simp add: smtp_commands_def bind_def try_except_def call_def ret_def index_def
          split: sum.splits)
  next
    assume "mail_code = 250 \<and> smtp_rcpt env mx_record email = Inr rcpt_code"
    with a show "smtp_commands (snd (test_smtp_connection self env email)) =
           [SmtpHelo (sending_domain self), SmtpMail (''test@'' @ sending_domain self),
            SmtpRcpt email, SmtpQuit]"
      unfolding probe_after_split[OF at]
      by (simp add: smtp_commands_def bind_def try_except_def call_def ret_def index_def
          split: sum.splits)
  }
qed


lemma example_nets:
  "resolve net_accepting (py_split CHR ''@'' ''info@gmail.com'' ! 1) RR_MX = Inr [''mx.example.net'']"
  "smtp_connect net_accepting ''mx.example.net'' 25 = Inr 220"
  "smtp_helo net_accepting ''mx.example.net'' (sending_domain (new_verifier ''gatesweb.top'')) = Inr 250"
  "smtp_mail net_accepting ''mx.example.net'' (''test@'' @ sending_domain (new_verifier ''gatesweb.top'')) = Inr 250"
  "resolve net_mail_rejected (py_split CHR ''@'' ''info@gmail.com'' ! 1) RR_MX = Inr [''mx.example.net'']"
  "smtp_connect net_mail_rejected ''mx.example.net'' 25 = Inr 220"
  "smtp_helo net_mail_rejected ''mx.example.net'' (sending_domain (new_verifier ''gatesweb.top'')) = Inr 250"
  "smtp_mail net_mail_rejected ''mx.example.net'' (''test@'' @ sending_domain (new_verifier ''gatesweb.top'')) = Inr 550"
  "resolve net_rcpt_rejected (py_split CHR ''@'' ''info@gmail.com'' ! 1) RR_MX = Inr [''mx.example.net'']"
  "smtp_connect net_rcpt_rejected ''mx.example.net'' 25 = Inr 220"
  "smtp_helo net_rcpt_rejected ''mx.example.net'' (sending_domain (new_verifier ''gatesweb.top'')) = Inr 250"
  "smtp_mail net_rcpt_rejected ''mx.example.net'' (''test@'' @ sending_domain (new_verifier ''gatesweb.top'')) = Inr 250"
  "resolve net_rcpt_forwarded (py_split CHR ''@'' ''info@gmail.com'' ! 1) RR_MX = Inr [''mx.example.net'']"
  "smtp_connect net_rcpt_forwarded ''mx.example.net'' 25 = Inr 220"
  "smtp_helo net_rcpt_forwarded ''mx.example.net'' (sending_domain (new_verifier ''gatesweb.top'')) = Inr 250"
  "smtp_mail net_rcpt_forwarded ''mx.example.net'' (''test@'' @ sending_domain (new_verifier ''gatesweb.top'')) = Inr 250"
  "resolve net_quit_dropped (py_split CHR ''@'' ''info@gmail.com'' ! 1) RR_MX = Inr [''mx.example.net'']"
  "smtp_connect net_quit_dropped ''mx.example.net'' 25 = Inr 220"
  "smtp_helo net_quit_dropped ''mx.example.net'' (sending_domain (new_verifier ''gatesweb.top'')) = Inr 250"
  "smtp_mail net_quit_dropped ''mx.example.net'' (''test@'' @ sending_domain (new_verifier ''gatesweb.top'')) = Inr 250"
  by code_simp+

lemma example_replies:
  "smtp_mail net_mail_rejected ''mx.example.net'' ''test@gatesweb.top'' = Inr 550"
  "smtp_rcpt net_accepting ''mx.example.net'' ''info@gmail.com'' = Inr 250"
  "smtp_rcpt net_rcpt_forwarded ''mx.example.net'' ''info@gmail.com'' = Inr 251"
  "smtp_rcpt net_rcpt_rejected ''mx.example.net'' ''info@gmail.com'' = Inr 550"
  "smtp_quit net_accepting ''mx.example.net'' = Inr 221"
  "smtp_quit net_rcpt_forwarded ''mx.example.net'' = Inr 221"
  "smtp_quit net_rcpt_rejected ''mx.example.net'' = Inr 221"
  "smtp_rcpt net_quit_dropped ''mx.example.net'' ''info@gmail.com'' = Inr 250"
  "smtp_quit net_quit_dropped ''mx.example.net'' = Inl SMTPServerDisconnected"
  by code_simp+



text \<open>
  Claim C4 as stated says that no \<open>QUIT\<close> is ever sent. It is sent both when
  \<open>MAIL FROM\<close> is answered with 550 and after \<open>RCPT TO\<close>.
\<close>

theorem C4_quit_is_sent:
  "SmtpQuit \<in> set (snd (test_smtp_connection (new_verifier ''gatesweb.top'') net_mail_rejected
      ''info@gmail.com'')) \<and>
   SmtpQuit \<in> set (snd (test_smtp_connection (new_verifier ''gatesweb.top'') net_accepting
      ''info@gmail.com''))"
  by code_simp

theorem C4_probe_commands_witness:
  "smtp_mail net_mail_rejected ''mx.example.net'' ''test@gatesweb.top'' = Inr 550 \<and>
   smtp_commands (snd (test_smtp_connection (new_verifier ''gatesweb.top'') net_mail_rejected
      ''info@gmail.com'')) =
     [SmtpHelo ''gatesweb.top'', SmtpMail ''test@gatesweb.top'', SmtpQuit] \<and>
   smtp_rcpt net_rcpt_rejected ''mx.example.net'' ''info@gmail.com'' = Inr 550 \<and>
   smtp_commands (snd (test_smtp_connection (new_verifier ''gatesweb.top'') net_rcpt_rejected
      ''info@gmail.com'')) =
     [SmtpHelo ''gatesweb.top'', SmtpMail ''test@gatesweb.top'', SmtpRcpt ''info@gmail.com'',
      SmtpQuit]"
proof -
  have at: "CHR ''@'' \<in> set ''info@gmail.com''" by simp
  have sd: "sending_domain (new_verifier ''gatesweb.top'') = ''gatesweb.top''"
    by (simp add: new_verifier_def)
  have r1: "smtp_commands (snd (test_smtp_connection (new_verifier ''gatesweb.top'')
      net_mail_rejected ''info@gmail.com'')) =
     [SmtpHelo ''gatesweb.top'', SmtpMail ''test@gatesweb.top'', SmtpQuit]"
    using C4_probe_commands[THEN conjunct2, THEN mp,
        OF conjI[OF at conjI[OF example_nets(5) conjI[OF example_nets(6)
          conjI[OF example_nets(7) example_nets(8)]]]], THEN conjunct1]
    by (simp add: sd)
  have r2: "smtp_commands (snd (test_smtp_connection (new_verifier ''gatesweb.top'')
      net_rcpt_rejected ''info@gmail.com'')) =
     [SmtpHelo ''gatesweb.top'', SmtpMail ''test@gatesweb.top'', SmtpRcpt ''info@gmail.com'',
      SmtpQuit]"
    using C4_probe_commands[THEN conjunct2, THEN mp,
        OF conjI[OF at conjI[OF example_nets(9) conjI[OF example_nets(10)
          conjI[OF example_nets(11) example_nets(12)]]]], THEN conjunct2, THEN mp,
        OF conjI[OF refl example_replies(4)]]
    by (simp add: sd)
  show ?thesis
    by (intro conjI example_replies(1) example_replies(4) r1 r2)
qed

section \<open>The optimistic fallback\<close>

text \<open>
  The pipeline answers \<open>"200"\<close> only when the probe returned \<open>True\<close>: a probe that fails
  in any way returns \<open>False\<close>, and the pipeline then answers \<open>"BAD"\<close>.
\<close>

lemma verified_only_if_probe_accepts:
  assumes "fst (verify_email_comprehensive self env email) = Inr ''200''"
  shows "fst (test_smtp_connection self env (strip (lower email))) = Inr True"
proof -
  have at0: "CHR ''@'' \<in> set email"
  proof (rule ccontr)
    assume "CHR ''@'' \<notin> set email"
    then have "verify_email_comprehensive self env email = (Inr ''BAD'', [])"
      by (simp add: verify_email_comprehensive_def ret_def)
    with assms show False by simp
  qed
  then have at: "CHR ''@'' \<in> set (strip (lower email))"
    by (simp add: at_in_lower at_in_strip)
  from at0 have ne: "email \<noteq> []" by auto
  obtain accepted where p: "fst (test_smtp_connection self env (strip (lower email))) = Inr accepted"
    using test_smtp_connection_returns[OF at] by blast
  have "accepted"
  proof (rule ccontr)
    assume "\<not> accepted"
    with p have "fst (verify_email_comprehensive self env email) \<noteq> Inr ''200''"
      using at0 ne
      unfolding verify_email_comprehensive_def Let_def index_1_split[OF at] bind_value
      by (auto simp: bind_def try_except_def ret_def split: prod.splits sum.splits if_splits)
    with assms show False by simp
  qed
  with p show ?thesis by simp
qed

text \<open>
  Claim C1 says that a probe that fails at the network level, after the format, domain,
  MX and reputation checks have passed, ends in the verdict \<open>"200"\<close>. The pipeline
  answers \<open>"BAD"\<close>: for \<open>info@gmail.com\<close>, with both DNS checks answered, a trusted
  domain and a mail server that refuses the connection, the log shows the two checks,
  the probe's own MX query and the refused connection, and the verdict is \<open>"BAD"\<close>.
\<close>

theorem C1_refused_connection_is_rejected:
  "verify_email_comprehensive (new_verifier ''gatesweb.top'') net_refusing ''info@gmail.com'' =
     (Inr ''BAD'',
      [DnsQuery ''gmail.com'' RR_A, DnsQuery ''gmail.com'' RR_MX,
       DnsQuery ''gmail.com'' RR_MX, SmtpConnect ''mx.example.net'' 25])"
  by code_simp

section \<open>The reputation check\<close>






section \<open>What the run writes into the companies\<close>

lemma verify_verdicts:
  "fst (verify_email_comprehensive self env email) = Inr v \<Longrightarrow> v = ''200'' \<or> v = ''BAD''"
  unfolding verify_email_comprehensive_def Let_def
  by (auto simp: bind_def try_except_def ret_def split: prod.splits sum.splits if_splits)

lemma guarded_verdict:
  "\<exists>v. fst (try_except (verify_email_comprehensive self env email) (\<lambda>e. ret ''BAD'')) = Inr v \<and>
     (v = ''200'' \<or> v = ''BAD'')"
proof (cases "verify_email_comprehensive self env email")
  case (Pair r log)
  show ?thesis
  proof (cases r)
    case (Inl e)
    with Pair show ?thesis by (simp add: try_except_def ret_def)
  next
    case (Inr v)
    with Pair have "fst (verify_email_comprehensive self env email) = Inr v" by simp
    then have "v = ''200'' \<or> v = ''BAD''" by (rule verify_verdicts)
    with Pair Inr show ?thesis by (simp add: try_except_def)
  qed
qed

lemma batch_verdicts:
  "\<exists>results. fst (verify_email_batch self env batch) = Inr results \<and>
     length results = length batch \<and> set results \<subseteq> {''200'', ''BAD''}"
proof (induction batch)
  case Nil
  show ?case by (simp add: ret_def)
next
  case (Cons email batch)
  obtain v where v: "fst (try_except (verify_email_comprehensive self env email)
      (\<lambda>e. ret ''BAD'')) = Inr v" "v = ''200'' \<or> v = ''BAD''"
    using guarded_verdict by blast
  from Cons obtain results where r: "fst (verify_email_batch self env batch) = Inr results"
    "length results = length batch" "set results \<subseteq> {''200'', ''BAD''}" by blast
  have "fst (verify_email_batch self env (email # batch)) = Inr (v # results)"
    using v(1) r(1)
    by (auto simp: bind_def ret_def split: prod.splits sum.splits)
  with v(2) r(2,3) show ?case by auto
qed

lemma collect_verdicts:
  "set all_results \<subseteq> {''200'', ''BAD''} \<Longrightarrow>
   set (collect_results self env faults batches order all_results) \<subseteq> {''200'', ''BAD''}"
proof (induction order arbitrary: all_results)
  case Nil
  then show ?case by simp
next
  case (Cons j order)
  show ?case
  proof (cases "future_result self env faults batches j")
    case (Inl e)
    have "set (all_results @ replicate (length (batches ! j)) ''BAD'') \<subseteq> {''200'', ''BAD''}"
      using Cons.prems by auto
    then show ?thesis
      using Inl Cons.IH by simp
  next
    case (Inr batch_results)
    then have "fst (verify_email_batch self env (batches ! j)) = Inr batch_results"
      by (simp add: future_result_def split: option.splits)
    then have "set batch_results \<subseteq> {''200'', ''BAD''}"
      using batch_verdicts[of self env "batches ! j"] by auto
    with Cons.prems have "set (all_results @ batch_results) \<subseteq> {''200'', ''BAD''}" by simp
    then show ?thesis
      using Inr Cons.IH by simp
  qed
qed

lemma companies_after_run:
  "companies (snd (verify_all_emails self env faults order)) =
     map (annotate (collect_results self env faults (make_batches (map get_email (companies self)))
            order []))
       (enumerate 0 (companies self))"
  by (simp add: verify_all_emails_def Let_def)

text \<open>
  Claim C9, amended: the run keeps the number and order of the companies; in each company
  it leaves every field other than \<open>email_verification\<close> as it was, and it sets
  \<open>email_verification\<close> (a new field when the company had none, overwritten when it had
  one) to \<open>"200"\<close> or \<open>"BAD"\<close>, for every network, every completion order and every
  failure of workers.
\<close>

theorem C9_only_verification_field_written:
  assumes "i < length (companies self)"
  shows "length (companies (snd (verify_all_emails self env faults order))) =
      length (companies self) \<and>
    (\<forall>key. key \<noteq> ''email_verification'' \<longrightarrow>
       (companies (snd (verify_all_emails self env faults order)) ! i) key =
       (companies self ! i) key) \<and>
    dom (companies (snd (verify_all_emails self env faults order)) ! i) =
      insert ''email_verification'' (dom (companies self ! i)) \<and>
    ((companies (snd (verify_all_emails self env faults order)) ! i) ''email_verification'' =
       Some ''200'' \<or>
     (companies (snd (verify_all_emails self env faults order)) ! i) ''email_verification'' =
       Some ''BAD'')"
proof -
  let ?all = "collect_results self env faults (make_batches (map get_email (companies self)))
      order []"
  have v: "set ?all \<subseteq> {''200'', ''BAD''}"
    by (rule collect_verdicts) simp
  have nth: "companies (snd (verify_all_emails self env faults order)) ! i =
      annotate ?all (i, companies self ! i)"
    using assms by (simp add: companies_after_run nth_enumerate_eq)
  have "(if i < length ?all then ?all ! i else ''BAD'') \<in> {''200'', ''BAD''}"
    using v by (auto simp: subset_iff)
  then show ?thesis
    unfolding nth by (auto simp: companies_after_run annotate_def)
qed

text \<open>
  Claim C9 as stated says that every existing field is left unchanged and one new field is
  added. A company that comes with an \<open>email_verification\<close> of \<open>"200"\<close> and the address
  \<open>not-an-email\<close> leaves the run with \<open>"BAD"\<close> in that field.
\<close>

theorem C9_existing_field_overwritten:
  "(companies (load_companies [already_marked] (new_verifier ''gatesweb.top'')) ! 0)
      ''email_verification'' = Some ''200'' \<and>
   (companies (snd (verify_all_emails (load_companies [already_marked]
       (new_verifier ''gatesweb.top'')) net_accepting no_faults [0])) ! 0)
      ''email_verification'' = Some ''BAD''"
  by code_simp


theorem C9_only_verification_field_written_witness:
  "50 < length (companies (load_companies companies_last_good (new_verifier ''gatesweb.top''))) \<and>
   length (companies (snd (verify_all_emails
     (load_companies companies_last_good (new_verifier ''gatesweb.top''))
     net_accepting no_faults [1, 0]))) = 51 \<and>
   (companies (snd (verify_all_emails
     (load_companies companies_last_good (new_verifier ''gatesweb.top''))
     net_accepting no_faults [1, 0])) ! 50) ''name'' = Some ''Emlak B'' \<and>
   (companies (snd (verify_all_emails
     (load_companies companies_last_good (new_verifier ''gatesweb.top''))
     net_accepting no_faults [1, 0])) ! 50) ''email'' = Some ''info@gmail.com'' \<and>
   ((companies (snd (verify_all_emails
      (load_companies companies_last_good (new_verifier ''gatesweb.top''))
      net_accepting no_faults [1, 0])) ! 50) ''email_verification'' = Some ''200'' \<or>
    (companies (snd (verify_all_emails
      (load_companies companies_last_good (new_verifier ''gatesweb.top''))
      net_accepting no_faults [1, 0])) ! 50) ''email_verification'' = Some ''BAD'')"
proof -
  let ?s = "load_companies companies_last_good (new_verifier ''gatesweb.top'')"
  have h: "50 < length (companies ?s)" by code_simp
  have n: "length (companies ?s) = 51" by code_simp
  have f: "(companies ?s ! 50) ''name'' = Some ''Emlak B''"
    "(companies ?s ! 50) ''email'' = Some ''info@gmail.com''" by code_simp+
  note t = C9_only_verification_field_written[where self = ?s and i = 50
      and env = net_accepting and faults = no_faults and order = "[1, 0]", OF h]
  have "length (companies (snd (verify_all_emails ?s net_accepting no_faults [1, 0]))) = 51"
    using t[THEN conjunct1] n by simp
  moreover have "(companies (snd (verify_all_emails ?s net_accepting no_faults [1, 0])) ! 50)
      ''name'' = Some ''Emlak B''"
    using t[THEN conjunct2, THEN conjunct1, THEN spec, of "''name''"] f(1) by simp
  moreover have "(companies (snd (verify_all_emails ?s net_accepting no_faults [1, 0])) ! 50)
      ''email'' = Some ''info@gmail.com''"
    using t[THEN conjunct2, THEN conjunct1, THEN spec, of "''email''"] f(2) by simp
  moreover note t[THEN conjunct2, THEN conjunct2, THEN conjunct2]
  ultimately show ?thesis using h by (intro conjI)
qed

section \<open>What holds of the run for every completion order\<close>

lemma concat_chunks:
  "concat (map (\<lambda>i. take b (drop i xs)) (map (\<lambda>k. k * b) [0..<m])) = take (m * b) xs"
proof (induction m)
  case 0
  show ?case by simp
next
  case (Suc m)
  have "take (m * b) xs @ take b (drop (m * b) xs) = take (m * b + b) xs"
    by (simp add: take_add)
  with Suc show ?case by (simp add: add.commute)
qed

lemma concat_make_batches: "concat (make_batches emails) = emails"
proof -
  have "length emails \<le> (length emails + 50 - 1) div 50 * 50" by presburger
  then show ?thesis
    unfolding make_batches_def py_range_step_def batch_size_def concat_chunks by simp
qed

lemma length_collect_results:
  "length (collect_results self env faults batches order all_results) =
     length all_results + sum_list (map (\<lambda>j. length (batches ! j)) order)"
proof (induction order arbitrary: all_results)
  case Nil
  show ?case by simp
next
  case (Cons j order)
  show ?case
  proof (cases "future_result self env faults batches j")
    case (Inl e)
    then show ?thesis using Cons.IH by simp
  next
    case (Inr batch_results)
    then have "fst (verify_email_batch self env (batches ! j)) = Inr batch_results"
      by (simp add: future_result_def split: option.splits)
    then have "length batch_results = length (batches ! j)"
      using batch_verdicts[of self env "batches ! j"] by auto
    then show ?thesis using Inr Cons.IH by simp
  qed
qed

lemma sum_over_completion_order:
  assumes "is_completion_order n order"
  shows "sum_list (map f order) = sum_list (map (f :: nat \<Rightarrow> nat) [0..<n])"
proof -
  from assms have s: "sort order = [0..<n]" by (simp add: is_completion_order_def)
  have "distinct (sort order)" unfolding s by simp
  then have d: "distinct order" by simp
  have "set order = set (sort order)" by simp
  then have e: "set order = {0..<n}" unfolding s by simp
  have "sum_list (map f order) = sum f (set order)"
    using d by (rule sum_list_distinct_conv_sum_set)
  also have "\<dots> = sum f (set [0..<n])" using e by simp
  also have "\<dots> = sum_list (map f [0..<n])"
    by (rule sum_list_distinct_conv_sum_set[symmetric]) simp
  finally show ?thesis .
qed

lemma sum_of_batch_lengths:
  "sum_list (map (\<lambda>j. length (batches ! j)) [0..<length batches]) = length (concat batches)"
proof -
  have "map (\<lambda>j. length (batches ! j)) [0..<length batches] =
      map length (map (\<lambda>j. batches ! j) [0..<length batches])"
    by (simp only: map_map comp_def)
  also have "\<dots> = map length batches"
    by (simp only: map_nth)
  finally show ?thesis by (simp only: length_concat)
qed

text \<open>
  What does hold for every completion order: each batch contributes as many results as
  it has addresses, whether its worker dies or not, so the run collects one result for
  each company; and a run over at least one company returns.
\<close>

lemma one_result_per_company:
  assumes "is_completion_order (length (make_batches (map get_email (companies self)))) order"
  shows "length (collect_results self env faults (make_batches (map get_email (companies self)))
      order []) = length (companies self)"
proof -
  let ?batches = "make_batches (map get_email (companies self))"
  have "length (collect_results self env faults ?batches order []) =
      sum_list (map (\<lambda>j. length (?batches ! j)) [0..<length ?batches])"
    by (simp add: length_collect_results sum_over_completion_order[OF assms])
  also have "\<dots> = length (map get_email (companies self))"
    by (simp only: sum_of_batch_lengths concat_make_batches)
  finally show ?thesis by simp
qed

lemma run_returns_companies:
  assumes "is_completion_order (length (make_batches (map get_email (companies self)))) order"
    and "companies self \<noteq> []"
  shows "fst (verify_all_emails self env faults order) =
      Inr (companies (snd (verify_all_emails self env faults order)))"
proof -
  have "length (collect_results self env faults (make_batches (map get_email (companies self)))
      order []) \<noteq> 0"
    using assms(2) by (simp add: one_result_per_company[OF assms(1)])
  then show ?thesis
    by (simp add: verify_all_emails_def Let_def)
qed

section \<open>The order of the results\<close>

text \<open>
  Claim C2 says that the verdict stored at position \<open>i\<close> is the verdict of candidate
  \<open>i\<close>, whatever the order in which the batches complete. With fifty-one companies, of
  which only the last has a deliverable address, and the second batch completing before
  the first, the first company is marked \<open>"200"\<close> and the last one \<open>"BAD"\<close>, although
  their own verdicts are \<open>"BAD"\<close> and \<open>"200"\<close>.
\<close>

theorem C2_verdicts_follow_completion_order:
  "is_completion_order (length (make_batches (map get_email companies_last_good))) [1, 0] \<and>
   verification_column
     (snd (verify_all_emails
        (load_companies companies_last_good (new_verifier ''gatesweb.top''))
        net_accepting no_faults [1, 0])) =
     Some ''200'' # replicate 50 (Some ''BAD'') \<and>
   fst (verify_email_comprehensive (new_verifier ''gatesweb.top'') net_accepting
     (get_email (companies_last_good ! 0))) = Inr ''BAD'' \<and>
   fst (verify_email_comprehensive (new_verifier ''gatesweb.top'') net_accepting
     (get_email (companies_last_good ! 50))) = Inr ''200''"
  by code_simp

text \<open>
  Claim C5 says that the run ends normally on every list of companies, the empty one
  included. On the empty list no batch is made, \<open>all_results\<close> stays empty and the
  success rate divides by its length: the run ends with \<open>ZeroDivisionError\<close>.
\<close>

theorem C5_empty_run_divides_by_zero:
  "is_completion_order (length (make_batches (map get_email []))) [] \<and>
   fst (verify_all_emails (load_companies [] (new_verifier domain)) env faults []) =
     Inl ZeroDivisionError"
  by (simp add: verify_all_emails_def load_companies_def new_verifier_def
      is_completion_order_def make_batches_def py_range_step_def batch_size_def)

text \<open>
  Claim C6 says that every candidate of a batch whose worker died is marked \<open>"BAD"\<close>.
  With fifty-one companies, the worker of the second batch dying and its future
  completing first, the one company of that batch is marked \<open>"200"\<close>: the verdict of
  the fiftieth company of the first batch.
\<close>

theorem C6_failed_batch_marked_verified:
  "is_completion_order (length (make_batches (map get_email companies_fiftieth_good))) [1, 0] \<and>
   second_batch_fails 1 = Some WorkerFault \<and>
   make_batches (map get_email companies_fiftieth_good) ! 1 = [get_email no_address] \<and>
   verification_column
     (snd (verify_all_emails
        (load_companies companies_fiftieth_good (new_verifier ''gatesweb.top''))
        net_accepting second_batch_fails [1, 0])) ! 50 = Some ''200''"
  by code_simp

end
